theory Spec2Isabelle
  imports Complex_Main "HOL-Library.Product_Lexorder" "HOL-Library.List_Lexorder"
    "HOL-Library.Char_ord"
begin

section \<open>The data of \<^verbatim>\<open>ASTAR.py\<close>\<close>

text \<open>
  The graph is a Python dict of dicts. A dict keeps its keys in insertion order and
  \<^verbatim>\<open>neighbors.items()\<close> walks them in that order, so both levels are association
  lists; the outer one is only read with \<^verbatim>\<open>graph.get(current, {})\<close>.
  The heuristic table is only read with \<^verbatim>\<open>h.get(n, 0)\<close> and is a map.
  Costs are Python numbers; they are taken as reals, the return value
  \<^verbatim>\<open>float('inf')\<close> apart, which is the constructor \<open>PosInf\<close>. The one
  arithmetic step that can raise, the conversion of an int operand to a float, is
  written out in a section of its own below.
  Node identifiers are any linearly ordered type: the heap compares the tuples
  \<^verbatim>\<open>(f_score, node)\<close> lexicographically, so nodes are compared when f-scores tie.
\<close>

type_synonym 'n graph = "('n \<times> ('n \<times> real) list) list"

datatype error = KeyError | IndexError | OverflowError

datatype cost = Fin real | PosInf

type_synonym 'n result = "'n list option \<times> cost"

text \<open>
  Everything the call can reach: the two argument objects and the four objects the
  call creates. Each statement of the source that mutates an object is an update of
  the field of that object.
\<close>

record 'n astar_state =
  graph :: "'n graph"
  h :: "'n \<rightharpoonup> real"
  open_set :: "(real \<times> 'n) list"
  came_from :: "'n \<rightharpoonup> 'n option"
  g_score :: "'n \<rightharpoonup> real"
  closed_set :: "'n set"

text \<open>\<^verbatim>\<open>graph.get(current, {})\<close> and \<^verbatim>\<open>h.get(n, 0)\<close>.\<close>

definition graph_get :: "'n graph \<Rightarrow> 'n \<Rightarrow> ('n \<times> real) list" where
  "graph_get G n = (case map_of G n of None \<Rightarrow> [] | Some nbrs \<Rightarrow> nbrs)"

definition h_get :: "('n \<rightharpoonup> real) \<Rightarrow> 'n \<Rightarrow> real" where
  "h_get H n = (case H n of None \<Rightarrow> 0 | Some v \<Rightarrow> v)"

text \<open>\<^verbatim>\<open>came_from.get(node)\<close>: \<^verbatim>\<open>None\<close> for a missing key and for a stored \<^verbatim>\<open>None\<close>.\<close>

definition came_from_get :: "('n \<rightharpoonup> 'n option) \<Rightarrow> 'n \<Rightarrow> 'n option" where
  "came_from_get cf n = (case cf n of None \<Rightarrow> None | Some p \<Rightarrow> p)"

subsection \<open>The priority queue\<close>

text \<open>
  \<^verbatim>\<open>heapq\<close> keeps a binary heap in a list. The program only pushes, pops and tests
  for emptiness, so all it can observe is the multiset of entries: \<^verbatim>\<open>heappop\<close>
  returns the least entry and removes one copy of it. The list here holds the
  entries in no particular order. Popping from an empty heap raises
  \<^verbatim>\<open>IndexError\<close>.
\<close>

definition heappush :: "'a list \<Rightarrow> 'a \<Rightarrow> 'a list" where
  "heappush heap item = item # heap"

definition heappop :: "('a::linorder) list \<Rightarrow> error + ('a \<times> 'a list)" where
  "heappop heap =
     (if heap = [] then Inl IndexError
      else let m = Min (set heap) in Inr (m, remove1 m heap))"

section \<open>The search\<close>

subsection \<open>Edge relaxation (the \<^verbatim>\<open>for\<close> loop)\<close>

text \<open>One pass through the body of \<^verbatim>\<open>for neigh, cost in neighbors.items()\<close>.\<close>

definition relax_edge :: "'n \<Rightarrow> 'n \<times> real \<Rightarrow> 'n astar_state \<Rightarrow> error + 'n astar_state" where
  "relax_edge current e s =
     (case e of (neigh, cost) \<Rightarrow>
       (case g_score s current of
          None \<Rightarrow> Inl KeyError
        | Some gc \<Rightarrow>
            let tentative_g = gc + cost in
            if (case g_score s neigh of None \<Rightarrow> False | Some gn \<Rightarrow> tentative_g \<ge> gn)
            then Inr s
            else Inr (s\<lparr>came_from := (came_from s)(neigh \<mapsto> Some current),
                        g_score := (g_score s)(neigh \<mapsto> tentative_g),
                        open_set := heappush (open_set s)
                                      (tentative_g + h_get (h s) neigh, neigh)\<rparr>)))"

fun relax :: "'n \<Rightarrow> ('n \<times> real) list \<Rightarrow> 'n astar_state \<Rightarrow> error + 'n astar_state" where
  "relax current [] s = Inr s"
| "relax current (e # es) s =
     (case relax_edge current e s of
        Inl err \<Rightarrow> Inl err
      | Inr s' \<Rightarrow> relax current es s')"

subsection \<open>Path reconstruction (the inner \<^verbatim>\<open>while\<close> loop)\<close>

text \<open>
  \<^verbatim>\<open>while node is not None: path.append(node); node = came_from.get(node)\<close>.
  Nothing in the loop bounds it: on a cyclic \<open>came_from\<close> it runs forever, which is
  the value \<open>None\<close> here.
\<close>

partial_function (option) reconstruct ::
  "('n \<rightharpoonup> 'n option) \<Rightarrow> 'n option \<Rightarrow> 'n list \<Rightarrow> 'n list option" where
  "reconstruct cf node path =
     (case node of
        None \<Rightarrow> Some path
      | Some n \<Rightarrow> reconstruct cf (came_from_get cf n) (path @ [n]))"

text \<open>The goal branch: rebuild the path, reverse it, return it with \<^verbatim>\<open>g_score[current]\<close>.\<close>

definition return_path :: "'n \<Rightarrow> 'n astar_state \<Rightarrow> (error + 'n result) option" where
  "return_path current s =
     (case reconstruct (came_from s) (Some current) [] of
        None \<Rightarrow> None
      | Some path \<Rightarrow>
          (case g_score s current of
             None \<Rightarrow> Some (Inl KeyError)
           | Some g \<Rightarrow> Some (Inr (Some (rev path), Fin g))))"

subsection \<open>The main loop\<close>

text \<open>
  One pass through the body of \<^verbatim>\<open>while open_set\<close>: it ends at the goal, raises, or
  goes on to the next iteration.
\<close>

datatype 'n iteration = AtGoal 'n "'n astar_state" | Raise error "'n astar_state"
  | Continue "'n astar_state"

definition loop_body :: "('n::linorder) \<Rightarrow> 'n astar_state \<Rightarrow> 'n iteration" where
  "loop_body goal s =
     (case heappop (open_set s) of
        Inl err \<Rightarrow> Raise err s
      | Inr ((f_current, current), rest) \<Rightarrow>
          let s1 = s\<lparr>open_set := rest\<rparr> in
          if current = goal then AtGoal current s1
          else if current \<in> closed_set s1 then Continue s1
          else
            let s2 = s1\<lparr>closed_set := insert current (closed_set s1)\<rparr>;
                neighbors = graph_get (graph s2) current
            in (case relax current neighbors s2 of
                  Inl err \<Rightarrow> Raise err s2
                | Inr s3 \<Rightarrow> Continue s3))"

text \<open>
  The loop returns the value of the call together with the final contents of the
  objects. \<open>None\<close> stands for a run that never returns.
\<close>

partial_function (option) search ::
  "('n::linorder) \<Rightarrow> 'n astar_state \<Rightarrow> ((error + 'n result) \<times> 'n astar_state) option" where
  "search goal s =
     (if open_set s = [] then Some (Inr (None, PosInf), s)
      else (case loop_body goal s of
              AtGoal current s1 \<Rightarrow> map_option (\<lambda>r. (r, s1)) (return_path current s1)
            | Raise err s1 \<Rightarrow> Some (Inl err, s1)
            | Continue s1 \<Rightarrow> search goal s1))"

definition init_state :: "'n graph \<Rightarrow> ('n \<rightharpoonup> real) \<Rightarrow> 'n \<Rightarrow> 'n astar_state" where
  "init_state G H start =
     \<lparr>graph = G, h = H,
      open_set = heappush [] (h_get H start, start),
      came_from = [start \<mapsto> None],
      g_score = [start \<mapsto> 0],
      closed_set = {}\<rparr>"

definition a_star_run ::
  "('n::linorder) graph \<Rightarrow> ('n \<rightharpoonup> real) \<Rightarrow> 'n \<Rightarrow> 'n
     \<Rightarrow> ((error + 'n result) \<times> 'n astar_state) option" where
  "a_star_run G H start goal = search goal (init_state G H start)"

text \<open>The value the call returns.\<close>

definition a_star ::
  "('n::linorder) graph \<Rightarrow> ('n \<rightharpoonup> real) \<Rightarrow> 'n \<Rightarrow> 'n \<Rightarrow> (error + 'n result) option" where
  "a_star G H start goal = map_option fst (a_star_run G H start goal)"

section \<open>The search with the conversion of ints to floats\<close>

text \<open>
  \<^verbatim>\<open>g_score\<close> starts at the float \<^verbatim>\<open>0.0\<close>, so the left operand of the
  additions in \<^verbatim>\<open>g_score[current] + cost\<close> and
  \<^verbatim>\<open>tentative_g + h.get(neigh, 0)\<close> is always a float. When the right operand
  is an int, Python converts it to a float first, and the conversion raises
  \<^verbatim>\<open>OverflowError\<close> when rounding to nearest takes the int out of the range
  of floats, that is when its magnitude is at least \<open>2 ^ 1024 - 2 ^ 970\<close>. Every float is
  below that limit, so in a graph or a table of reals a number at or beyond the limit
  is such an int. Nothing else in the call converts a number: comparisons of ints
  with floats are exact and never raise.

  The definitions of this section are those of the search above with that error
  written out; the order of the lookup, the two additions and the updates is that of
  the source.
\<close>

definition float_limit :: real where
  "float_limit = 2 ^ 1024 - 2 ^ 970"

definition float_add :: "real \<Rightarrow> real \<Rightarrow> error + real" where
  "float_add x y = (if float_limit \<le> \<bar>y\<bar> then Inl OverflowError else Inr (x + y))"

definition relax_edge_conv ::
  "'n \<Rightarrow> 'n \<times> real \<Rightarrow> 'n astar_state \<Rightarrow> error + 'n astar_state" where
  "relax_edge_conv current e s =
     (case e of (neigh, cost) \<Rightarrow>
       (case g_score s current of
          None \<Rightarrow> Inl KeyError
        | Some gc \<Rightarrow>
            (case float_add gc cost of
               Inl err \<Rightarrow> Inl err
             | Inr tentative_g \<Rightarrow>
                 if (case g_score s neigh of None \<Rightarrow> False | Some gn \<Rightarrow> tentative_g \<ge> gn)
                 then Inr s
                 else
                   let s1 = s\<lparr>came_from := (came_from s)(neigh \<mapsto> Some current),
                              g_score := (g_score s)(neigh \<mapsto> tentative_g)\<rparr>
                   in (case float_add tentative_g (h_get (h s1) neigh) of
                         Inl err \<Rightarrow> Inl err
                       | Inr f_score \<Rightarrow>
                           Inr (s1\<lparr>open_set := heappush (open_set s1) (f_score, neigh)\<rparr>)))))"

fun relax_conv ::
  "'n \<Rightarrow> ('n \<times> real) list \<Rightarrow> 'n astar_state \<Rightarrow> error + 'n astar_state" where
  "relax_conv current [] s = Inr s"
| "relax_conv current (e # es) s =
     (case relax_edge_conv current e s of
        Inl err \<Rightarrow> Inl err
      | Inr s' \<Rightarrow> relax_conv current es s')"

definition loop_body_conv :: "('n::linorder) \<Rightarrow> 'n astar_state \<Rightarrow> 'n iteration" where
  "loop_body_conv goal s =
     (case heappop (open_set s) of
        Inl err \<Rightarrow> Raise err s
      | Inr ((f_current, current), rest) \<Rightarrow>
          let s1 = s\<lparr>open_set := rest\<rparr> in
          if current = goal then AtGoal current s1
          else if current \<in> closed_set s1 then Continue s1
          else
            let s2 = s1\<lparr>closed_set := insert current (closed_set s1)\<rparr>;
                neighbors = graph_get (graph s2) current
            in (case relax_conv current neighbors s2 of
                  Inl err \<Rightarrow> Raise err s2
                | Inr s3 \<Rightarrow> Continue s3))"

partial_function (option) search_conv ::
  "('n::linorder) \<Rightarrow> 'n astar_state \<Rightarrow> ((error + 'n result) \<times> 'n astar_state) option" where
  "search_conv goal s =
     (if open_set s = [] then Some (Inr (None, PosInf), s)
      else (case loop_body_conv goal s of
              AtGoal current s1 \<Rightarrow> map_option (\<lambda>r. (r, s1)) (return_path current s1)
            | Raise err s1 \<Rightarrow> Some (Inl err, s1)
            | Continue s1 \<Rightarrow> search_conv goal s1))"

definition a_star_conv ::
  "('n::linorder) graph \<Rightarrow> ('n \<rightharpoonup> real) \<Rightarrow> 'n \<Rightarrow> 'n \<Rightarrow> (error + 'n result) option" where
  "a_star_conv G H start goal = map_option fst (search_conv goal (init_state G H start))"

section \<open>The graph of \<^verbatim>\<open>main\<close>\<close>

definition main_graph :: "string graph" where
  "main_graph =
     [(''S'', [(''A'', 3), (''B'', 1), (''C'', 5)]),
      (''A'', [(''E'', 7), (''G1'', 10)]),
      (''B'', [(''C'', 2), (''F'', 2)]),
      (''C'', [(''G3'', 11)]),
      (''D'', [(''B'', 4), (''S'', 6), (''G2'', 5)]),
      (''E'', [(''G1'', 2)]),
      (''F'', [(''D'', 1)]),
      (''G1'', []),
      (''G2'', []),
      (''G3'', [(''F'', 0)])]"

definition main_heuristic :: "string \<rightharpoonup> real" where
  "main_heuristic =
     map_of [(''S'', 8), (''A'', 9), (''B'', 1), (''C'', 3), (''D'', 4), (''E'', 1),
             (''F'', 5), (''G1'', 0), (''G2'', 0), (''G3'', 3)]"

section \<open>Notions the statements are about\<close>

subsection \<open>Walks and their cost\<close>

text \<open>
  \<open>walk G u v c\<close>: following outgoing edges of \<open>G\<close> leads from \<open>u\<close> to \<open>v\<close> at total
  cost \<open>c\<close>. The empty walk costs \<open>0\<close>; a walk is extended by one edge at its end.
  An edge is an entry of the dict that \<^verbatim>\<open>graph.get\<close> returns for its source.
\<close>

inductive walk :: "'n graph \<Rightarrow> 'n \<Rightarrow> 'n \<Rightarrow> real \<Rightarrow> bool" for G :: "'n graph" and u :: 'n where
  walk_empty: "walk G u u 0"
| walk_edge: "walk G u x c \<Longrightarrow> (v, w) \<in> set (graph_get G x) \<Longrightarrow> walk G u v (c + w)"

text \<open>The true minimum cost from \<open>u\<close> to \<open>v\<close>: the cost of a walk, and a lower bound of all.\<close>

definition min_cost :: "'n graph \<Rightarrow> 'n \<Rightarrow> 'n \<Rightarrow> real \<Rightarrow> bool" where
  "min_cost G u v c \<longleftrightarrow> walk G u v c \<and> (\<forall>c'. walk G u v c' \<longrightarrow> c \<le> c')"

text \<open>The cost of a sequence of nodes, when each consecutive pair is an edge.\<close>

fun path_cost :: "'n graph \<Rightarrow> 'n list \<Rightarrow> real option" where
  "path_cost G [] = None"
| "path_cost G [x] = Some 0"
| "path_cost G (x # y # rest) =
     (case map_of (graph_get G x) y of
        None \<Rightarrow> None
      | Some w \<Rightarrow> map_option (\<lambda>c. w + c) (path_cost G (y # rest)))"

subsection \<open>Conditions on the inputs\<close>

text \<open>Every weight written in the graph is non-negative.\<close>

definition nonneg_weights :: "'n graph \<Rightarrow> bool" where
  "nonneg_weights G \<longleftrightarrow> list_all (\<lambda>(u, nbrs). list_all (\<lambda>(v, w). 0 \<le> w) nbrs) G"

text \<open>Admissible: the estimate of a node never exceeds the cost of a walk from it to the goal.\<close>

definition admissible :: "'n graph \<Rightarrow> ('n \<rightharpoonup> real) \<Rightarrow> 'n \<Rightarrow> bool" where
  "admissible G H goal \<longleftrightarrow> (\<forall>n c. walk G n goal c \<longrightarrow> h_get H n \<le> c)"

text \<open>Consistent: along every edge the estimate drops by at most the weight of the edge.\<close>

definition consistent :: "'n graph \<Rightarrow> ('n \<rightharpoonup> real) \<Rightarrow> bool" where
  "consistent G H \<longleftrightarrow>
     list_all (\<lambda>(u, nbrs). list_all (\<lambda>(v, w). h_get H u \<le> w + h_get H v) nbrs) G"

text \<open>
  Every weight written in the graph and every value of the table is a float, or an int
  that converts to one.
\<close>

definition in_float_range :: "'n graph \<Rightarrow> ('n \<rightharpoonup> real) \<Rightarrow> bool" where
  "in_float_range G H \<longleftrightarrow>
     list_all (\<lambda>(u, nbrs). list_all (\<lambda>(v, w). \<bar>w\<bar> < float_limit) nbrs) G \<and>
     (\<forall>n. \<bar>h_get H n\<bar> < float_limit)"

subsection \<open>Iterations of the main loop\<close>

text \<open>The state at the start of pass \<open>k\<close> of the \<^verbatim>\<open>while\<close> loop, if the loop gets that far.\<close>

fun iterate :: "nat \<Rightarrow> ('n::linorder) \<Rightarrow> 'n astar_state \<Rightarrow> 'n astar_state option" where
  "iterate 0 goal s = Some s"
| "iterate (Suc k) goal s =
     (if open_set s = [] then None
      else (case loop_body goal s of
              Continue s' \<Rightarrow> iterate k goal s'
            | _ \<Rightarrow> None))"

text \<open>The pass that starts in \<open>s\<close> expands \<open>n\<close>: it pops \<open>n\<close> and goes on to relax its edges.\<close>

definition expands :: "('n::linorder) \<Rightarrow> 'n astar_state \<Rightarrow> 'n \<Rightarrow> bool" where
  "expands goal s n \<longleftrightarrow>
     open_set s \<noteq> [] \<and> snd (Min (set (open_set s))) = n \<and> n \<noteq> goal \<and> n \<notin> closed_set s"

subsection \<open>Dijkstra's algorithm\<close>

text \<open>
  Dijkstra's algorithm from \<open>start\<close>, stopped when \<open>goal\<close> is taken from the queue, as it
  is written over a binary heap without a decrease-key operation: the queue holds
  pairs (distance, node), the least pair is taken first (so equal distances are
  ordered by node, as \<^verbatim>\<open>heapq\<close> orders tuples), a node already done is
  dropped, and an edge updates its target only when it makes the distance strictly
  smaller. No heuristic occurs in it.
\<close>

record 'n dijkstra_state =
  dj_graph :: "'n graph"
  dj_queue :: "(real \<times> 'n) list"
  dj_prev :: "'n \<rightharpoonup> 'n option"
  dj_dist :: "'n \<rightharpoonup> real"
  dj_done :: "'n set"

definition dijkstra_relax_edge ::
  "'n \<Rightarrow> 'n \<times> real \<Rightarrow> 'n dijkstra_state \<Rightarrow> error + 'n dijkstra_state" where
  "dijkstra_relax_edge u e d =
     (case e of (v, w) \<Rightarrow>
       (case dj_dist d u of
          None \<Rightarrow> Inl KeyError
        | Some du \<Rightarrow>
            if (case dj_dist d v of None \<Rightarrow> True | Some dv \<Rightarrow> du + w < dv)
            then Inr (d\<lparr>dj_prev := (dj_prev d)(v \<mapsto> Some u),
                        dj_dist := (dj_dist d)(v \<mapsto> du + w),
                        dj_queue := heappush (dj_queue d) (du + w, v)\<rparr>)
            else Inr d))"

fun dijkstra_relax ::
  "'n \<Rightarrow> ('n \<times> real) list \<Rightarrow> 'n dijkstra_state \<Rightarrow> error + 'n dijkstra_state" where
  "dijkstra_relax u [] d = Inr d"
| "dijkstra_relax u (e # es) d =
     (case dijkstra_relax_edge u e d of
        Inl err \<Rightarrow> Inl err
      | Inr d' \<Rightarrow> dijkstra_relax u es d')"

partial_function (option) dijkstra_search ::
  "('n::linorder) \<Rightarrow> 'n dijkstra_state \<Rightarrow> (error + 'n result) option" where
  "dijkstra_search goal d =
     (if dj_queue d = [] then Some (Inr (None, PosInf))
      else (case heappop (dj_queue d) of
              Inl err \<Rightarrow> Some (Inl err)
            | Inr ((du, u), rest) \<Rightarrow>
                let d1 = d\<lparr>dj_queue := rest\<rparr> in
                if u = goal then
                  (case reconstruct (dj_prev d1) (Some u) [] of
                     None \<Rightarrow> None
                   | Some path \<Rightarrow>
                       (case dj_dist d1 u of
                          None \<Rightarrow> Some (Inl KeyError)
                        | Some c \<Rightarrow> Some (Inr (Some (rev path), Fin c))))
                else if u \<in> dj_done d1 then dijkstra_search goal d1
                else (case dijkstra_relax u (graph_get (dj_graph d1) u)
                             (d1\<lparr>dj_done := insert u (dj_done d1)\<rparr>) of
                        Inl err \<Rightarrow> Some (Inl err)
                      | Inr d2 \<Rightarrow> dijkstra_search goal d2)))"


subsection \<open>Two graphs with an admissible heuristic that is not consistent\<close>

text \<open>
  In \<open>detour_graph\<close> three edges lead from S to G through A and B, and one edge skips
  A. The table \<open>detour_heuristic\<close> is exact at S and A and zero at B.
\<close>

definition detour_graph :: "string graph" where
  "detour_graph =
     [(''S'', [(''A'', 1), (''B'', 3)]),
      (''A'', [(''B'', 1)]),
      (''B'', [(''G'', 10)]),
      (''G'', [])]"

definition detour_heuristic :: "string \<rightharpoonup> real" where
  "detour_heuristic = map_of [(''S'', 12), (''A'', 11), (''B'', 0), (''G'', 0)]"

text \<open>
  \<open>shortcut_graph\<close> has the same shape with an edge from S to G besides. The cheapest
  way from S to G is S, A, B, G at cost 24; the edge S to G costs 25. The table
  \<open>shortcut_heuristic\<close> is exact at S and A and zero at B; \<open>shortcut_exact\<close> is the true
  remaining cost at every node.
\<close>

definition shortcut_graph :: "string graph" where
  "shortcut_graph =
     [(''S'', [(''A'', 2), (''B'', 6), (''G'', 25)]),
      (''A'', [(''B'', 2)]),
      (''B'', [(''G'', 20)]),
      (''G'', [])]"

definition shortcut_heuristic :: "string \<rightharpoonup> real" where
  "shortcut_heuristic = map_of [(''S'', 24), (''A'', 22), (''B'', 0), (''G'', 0)]"

definition shortcut_exact :: "string \<rightharpoonup> real" where
  "shortcut_exact = map_of [(''S'', 24), (''A'', 22), (''B'', 20), (''G'', 0)]"

subsection \<open>A weight and an estimate beyond the range of floats\<close>

text \<open>The int \<^verbatim>\<open>10**309\<close>, once as the weight of an edge and once as an estimate.\<close>

definition huge_int :: real where
  "huge_int = 10 ^ 309"

definition huge_weight_graph :: "string graph" where
  "huge_weight_graph = [(''S'', [(''A'', huge_int)]), (''A'', [])]"

definition unit_graph :: "string graph" where
  "unit_graph = [(''S'', [(''A'', 1)]), (''A'', [])]"

definition huge_heuristic :: "string \<rightharpoonup> real" where
  "huge_heuristic = map_of [(''S'', 0), (''A'', huge_int)]"

subsection \<open>Auxiliary notions of the proofs\<close>

text \<open>Following \<open>came_from\<close> from \<open>n\<close> ends at a node stored with \<^verbatim>\<open>None\<close>.\<close>

inductive chain :: "('n \<rightharpoonup> 'n option) \<Rightarrow> 'n \<Rightarrow> bool" for cf :: "'n \<rightharpoonup> 'n option" where
  chain_root: "cf n = Some None \<Longrightarrow> chain cf n"
| chain_link: "cf n = Some (Some p) \<Longrightarrow> chain cf p \<Longrightarrow> chain cf n"

text \<open>
  What decreases in each pass of the main loop: the keys of the graph not yet closed,
  then the length of the queue.
\<close>

definition search_measure :: "'n astar_state \<Rightarrow> nat \<times> nat" where
  "search_measure s = (card (fst ` set (graph s) - closed_set s), length (open_set s))"

text \<open>
  Invariant of the main loop, for any graph: the state still holds the inputs, every
  queued node has a recorded cost, and every recorded cost is the cost of a walk from
  the start.
\<close>

definition base_inv :: "'n graph \<Rightarrow> ('n \<rightharpoonup> real) \<Rightarrow> 'n \<Rightarrow> 'n astar_state \<Rightarrow> bool" where
  "base_inv G H start s \<longleftrightarrow>
     graph s = G \<and> h s = H \<and>
     (\<forall>e \<in> set (open_set s). g_score s (snd e) \<noteq> None) \<and>
     (\<forall>n c. g_score s n = Some c \<longrightarrow> walk G start n c)"

text \<open>
  Invariant of the main loop, for non-negative weights: from every node with a
  recorded cost the predecessor links lead to a root, and a predecessor never costs
  more than its successor.
\<close>

definition chain_inv :: "'n astar_state \<Rightarrow> bool" where
  "chain_inv s \<longleftrightarrow>
     (\<forall>n. g_score s n \<noteq> None \<longrightarrow> chain (came_from s) n) \<and>
     (\<forall>n p. came_from s n = Some (Some p) \<longrightarrow>
        (\<exists>gp gn. g_score s p = Some gp \<and> g_score s n = Some gn \<and> gp \<le> gn))"

text \<open>
  Invariant of the main loop, for a consistent heuristic. \<open>X\<close> is the set of nodes
  whose edges have all been relaxed: the closed set between two passes.
\<close>

definition opt_inv ::
  "'n graph \<Rightarrow> ('n \<rightharpoonup> real) \<Rightarrow> 'n \<Rightarrow> 'n set \<Rightarrow> 'n astar_state \<Rightarrow> bool" where
  "opt_inv G H start X s \<longleftrightarrow>
     g_score s start = Some 0 \<and>
     (\<forall>n \<in> closed_set s. \<exists>c. g_score s n = Some c \<and> (\<forall>c'. walk G start n c' \<longrightarrow> c \<le> c')) \<and>
     (\<forall>x \<in> X. \<forall>e \<in> set (graph_get G x).
        \<exists>gx gv. g_score s x = Some gx \<and> g_score s (fst e) = Some gv \<and> gv \<le> gx + snd e) \<and>
     (\<forall>n c. g_score s n = Some c \<longrightarrow> n \<notin> closed_set s \<longrightarrow>
        (c + h_get H n, n) \<in> set (open_set s)) \<and>
     (\<forall>e \<in> set (open_set s). \<exists>c. g_score s (snd e) = Some c \<and> c + h_get H (snd e) \<le> fst e)"


declare search.simps [code] reconstruct.simps [code] dijkstra_search.simps [code]
  search_conv.simps [code]

section \<open>Basic facts\<close>

subsection \<open>The queue and one relaxation\<close>

lemma Min_set_in: "heap \<noteq> [] \<Longrightarrow> Min (set heap) \<in> set heap"
  by (simp add: Min_in)

lemma Min_set_le: "x \<in> set heap \<Longrightarrow> Min (set heap) \<le> x"
  by (simp add: Min_le)

lemma length_remove1_Min: "heap \<noteq> [] \<Longrightarrow> length (remove1 (Min (set heap)) heap) < length heap"
proof -
  assume ne: "heap \<noteq> []"
  then have "Min (set heap) \<in> set heap" by (simp add: Min_in)
  moreover from ne have "0 < length heap" by simp
  ultimately show ?thesis by (simp add: length_remove1 del: Min_in)
qed

lemma relax_edge_cases:
  assumes "relax_edge u (v, w) s = Inr s'"
  obtains (skip) gu gv where "g_score s u = Some gu" "g_score s v = Some gv" "gv \<le> gu + w" "s' = s"
  | (update) gu where "g_score s u = Some gu" "\<forall>gv. g_score s v = Some gv \<longrightarrow> gu + w < gv"
      "s' = s\<lparr>came_from := (came_from s)(v \<mapsto> Some u),
              g_score := (g_score s)(v \<mapsto> gu + w),
              open_set := (gu + w + h_get (h s) v, v) # open_set s\<rparr>"
  using assms
  by (auto simp: relax_edge_def Let_def heappush_def split: option.splits if_splits)

lemma relax_edge_frame:
  assumes "relax_edge u e s = Inr s'"
  shows "graph s' = graph s" "h s' = h s" "closed_set s' = closed_set s"
  using assms by (cases e; auto elim!: relax_edge_cases)+

lemma relax_edge_defined: "g_score s u \<noteq> None \<Longrightarrow> \<exists>s'. relax_edge u e s = Inr s'"
  by (cases e) (auto simp: relax_edge_def Let_def)

text \<open>
  A property \<open>J\<close> of the edges relaxed so far and of the state goes through the whole
  \<^verbatim>\<open>for\<close> loop when each pass keeps it.
\<close>

lemma relax_rule:
  assumes "relax u es s = Inr s'" and "J D s"
    and "\<And>e D s s'. e \<in> set es \<Longrightarrow> J D s \<Longrightarrow> relax_edge u e s = Inr s' \<Longrightarrow> J (insert e D) s'"
  shows "J (D \<union> set es) s'"
  using assms
proof (induction es arbitrary: D s)
  case Nil
  then show ?case by simp
next
  case (Cons e es)
  from Cons.prems(1) obtain s1 where e: "relax_edge u e s = Inr s1" and r: "relax u es s1 = Inr s'"
    by (auto split: sum.splits)
  have "J (insert e D) s1" using Cons.prems(3)[OF _ Cons.prems(2) e] by simp
  from Cons.IH[OF r this] Cons.prems(3) have "J (insert e D \<union> set es) s'" by simp
  then show ?case by simp
qed

lemma relax_simple_rule:
  assumes "relax u es s = Inr s'" and "I s"
    and "\<And>e s s'. e \<in> set es \<Longrightarrow> I s \<Longrightarrow> relax_edge u e s = Inr s' \<Longrightarrow> I s'"
  shows "I s'"
  using relax_rule[where J="\<lambda>_. I" and D="{}", OF assms(1)] assms(2,3) by blast

lemma relax_frame:
  assumes "relax u es s = Inr s'"
  shows "graph s' = graph s \<and> h s' = h s \<and> closed_set s' = closed_set s"
  using assms
  by (rule relax_simple_rule[where I="\<lambda>t. graph t = graph s \<and> h t = h s \<and> closed_set t = closed_set s"])
     (auto dest: relax_edge_frame)

subsection \<open>One pass of the main loop\<close>

text \<open>A pass that goes on either dropped a stale entry or expanded the popped node.\<close>

lemma loop_body_Continue:
  assumes "loop_body goal s = Continue s'"
  obtains (stale) f u where "open_set s \<noteq> []" "Min (set (open_set s)) = (f, u)" "u \<noteq> goal"
      "u \<in> closed_set s" "s' = s\<lparr>open_set := remove1 (f, u) (open_set s)\<rparr>"
  | (expand) f u where "open_set s \<noteq> []" "Min (set (open_set s)) = (f, u)" "u \<noteq> goal"
      "u \<notin> closed_set s"
      "relax u (graph_get (graph s) u)
         (s\<lparr>open_set := remove1 (f, u) (open_set s), closed_set := insert u (closed_set s)\<rparr>) = Inr s'"
  using assms
  by (auto simp: loop_body_def Let_def heappop_def split: sum.splits prod.splits if_splits)

lemma graph_get_not_key: "u \<notin> fst ` set G \<Longrightarrow> graph_get G u = []"
  by (simp add: graph_get_def map_of_eq_None_iff[THEN iffD2])

text \<open>Each pass that goes on lowers the measure, so the main loop ends.\<close>

lemma continue_decreases:
  assumes "loop_body goal s = Continue s'"
  shows "(search_measure s', search_measure s) \<in> less_than <*lex*> less_than"
  using assms
proof (cases rule: loop_body_Continue)
  case (stale f u)
  then show ?thesis
    using length_remove1_Min[of "open_set s"] by (simp add: search_measure_def)
next
  case (expand f u)
  let ?s2 = "s\<lparr>open_set := remove1 (f, u) (open_set s), closed_set := insert u (closed_set s)\<rparr>"
  from relax_frame[OF expand(5)]
  have fr: "graph s' = graph s" "closed_set s' = insert u (closed_set s)" by simp_all
  show ?thesis
  proof (cases "u \<in> fst ` set (graph s)")
    case True
    have "fst ` set (graph s) - insert u (closed_set s) \<subset> fst ` set (graph s) - closed_set s"
      using True expand(4) by auto
    then have "card (fst ` set (graph s) - insert u (closed_set s))
       < card (fst ` set (graph s) - closed_set s)"
      by (intro psubset_card_mono) auto
    then show ?thesis by (simp add: search_measure_def fr)
  next
    case False
    then have "graph_get (graph s) u = []" by (rule graph_get_not_key)
    with expand(5) have s': "s' = ?s2" by simp
    have "fst ` set (graph s) - insert u (closed_set s) = fst ` set (graph s) - closed_set s"
      using False by auto
    then show ?thesis
      using length_remove1_Min[of "open_set s"] expand(1,2)
      by (simp add: search_measure_def s')
  qed
qed

text \<open>Induction along the passes of the main loop.\<close>

lemma search_induct [case_names step]:
  assumes "\<And>s. (\<And>s'. open_set s \<noteq> [] \<Longrightarrow> loop_body goal s = Continue s' \<Longrightarrow> P s') \<Longrightarrow> P s"
  shows "P s"
proof (induction s rule: wf_induct_rule[OF wf_inv_image[OF wf_lex_prod[OF wf_less_than wf_less_than], of search_measure]])
  case (1 s)
  show ?case
  proof (rule assms)
    fix s' assume "open_set s \<noteq> []" "loop_body goal s = Continue s'"
    then show "P s'" using 1 continue_decreases[of goal s s'] by (simp add: inv_image_def)
  qed
qed

lemma search_frame:
  "search goal s = Some (r, s') \<Longrightarrow> graph s' = graph s \<and> h s' = h s"
proof (induction s rule: search_induct[where goal=goal])
  case (step s)
  show ?case
  proof (cases "open_set s = []")
    case True
    with step.prems show ?thesis by (simp add: search.simps)
  next
    case False
    show ?thesis
    proof (cases "loop_body goal s")
      case (AtGoal c s1)
      then have "graph s1 = graph s \<and> h s1 = h s"
        by (auto simp: loop_body_def Let_def split: sum.splits prod.splits if_splits)
      with AtGoal False step.prems show ?thesis by (auto simp: search.simps)
    next
      case (Raise e s1)
      then have "graph s1 = graph s \<and> h s1 = h s"
        by (auto simp: loop_body_def Let_def split: sum.splits prod.splits if_splits)
      with Raise False step.prems show ?thesis by (auto simp: search.simps)
    next
      case (Continue s1)
      then have "graph s1 = graph s \<and> h s1 = h s"
        by (cases rule: loop_body_Continue) (auto dest: relax_frame)
      moreover from Continue False step.prems have "search goal s1 = Some (r, s')"
        by (simp add: search.simps)
      ultimately show ?thesis using step.IH[OF False Continue] by simp
    qed
  qed
qed


lemma graph_get_edge:
  assumes "(v, w) \<in> set (graph_get G u)"
  obtains nbrs where "(u, nbrs) \<in> set G" "(v, w) \<in> set nbrs"
proof (cases "map_of G u")
  case None
  with assms show ?thesis by (simp add: graph_get_def)
next
  case (Some nbrs)
  then have "(u, nbrs) \<in> set G" by (rule map_of_SomeD)
  moreover from Some assms have "(v, w) \<in> set nbrs" by (simp add: graph_get_def)
  ultimately show ?thesis by (rule that)
qed

lemma nonneg_edge: "nonneg_weights G \<Longrightarrow> (v, w) \<in> set (graph_get G u) \<Longrightarrow> 0 \<le> w"
  by (erule graph_get_edge) (auto simp: nonneg_weights_def list_all_iff)

lemma consistent_edge:
  "consistent G H \<Longrightarrow> (v, w) \<in> set (graph_get G u) \<Longrightarrow> h_get H u \<le> w + h_get H v"
  by (erule graph_get_edge) (auto simp: consistent_def list_all_iff)

text \<open>
  The search from \<open>s\<close> is the search from the state of its last pass: the one where the
  queue is empty or the pass does not go on.
\<close>

lemma search_final:
  "\<exists>k sf. iterate k goal s = Some sf \<and> search goal s = search goal sf \<and>
     (open_set sf = [] \<or> (\<forall>s'. loop_body goal sf \<noteq> Continue s'))"
proof (induction s rule: search_induct[where goal=goal])
  case (step s)
  show ?case
  proof (cases "open_set s \<noteq> [] \<and> (\<exists>s'. loop_body goal s = Continue s')")
    case True
    then obtain s' where ne: "open_set s \<noteq> []" and c: "loop_body goal s = Continue s'" by blast
    from step.IH[OF ne c] obtain k sf where
      "iterate k goal s' = Some sf" "search goal s' = search goal sf"
      "open_set sf = [] \<or> (\<forall>s'. loop_body goal sf \<noteq> Continue s')" by blast
    moreover have "search goal s = search goal s'" using ne c by (subst search.simps) simp
    moreover have "iterate (Suc k) goal s = iterate k goal s'" using ne c by simp
    ultimately show ?thesis by metis
  next
    case False
    then have "iterate 0 goal s = Some s \<and> search goal s = search goal s \<and>
      (open_set s = [] \<or> (\<forall>s'. loop_body goal s \<noteq> Continue s'))" by auto
    then show ?thesis by blast
  qed
qed

lemma iterate_inv:
  assumes "iterate k goal s = Some s'" and "I s"
    and "\<And>s s'. I s \<Longrightarrow> loop_body goal s = Continue s' \<Longrightarrow> I s'"
  shows "I s'"
  using assms(1,2)
proof (induction k arbitrary: s)
  case 0
  then show ?case by simp
next
  case (Suc k)
  from Suc.prems(1) obtain s1 where c: "loop_body goal s = Continue s1"
    and it: "iterate k goal s1 = Some s'"
    by (auto split: if_splits iteration.splits)
  from assms(3)[OF Suc.prems(2) c] have "I s1" .
  from Suc.IH[OF it this] show ?case .
qed

subsection \<open>The invariant that needs nothing of the weights\<close>

lemma base_inv_init: "base_inv G H start (init_state G H start)"
  by (auto simp: base_inv_def init_state_def heappush_def intro: walk_empty split: if_splits)

lemma base_inv_relax_edge:
  assumes "base_inv G H start s" "(v, w) \<in> set (graph_get G u)" "relax_edge u (v, w) s = Inr s'"
  shows "base_inv G H start s'"
  using assms(3)
proof (cases rule: relax_edge_cases)
  case (skip gu gv)
  with assms(1) show ?thesis by simp
next
  case (update gu)
  from assms(1) update(1) have "walk G start u gu" by (simp add: base_inv_def)
  then have "walk G start v (gu + w)" using assms(2) by (rule walk_edge)
  with assms(1) show ?thesis by (auto simp: base_inv_def update(3))
qed

lemma base_inv_pop:
  assumes "base_inv G H start s"
  shows "base_inv G H start (s\<lparr>open_set := remove1 x (open_set s)\<rparr>)"
    and "base_inv G H start (s\<lparr>open_set := remove1 x (open_set s), closed_set := C\<rparr>)"
  using assms by (auto simp: base_inv_def dest: notin_set_remove1)

lemma base_inv_step:
  assumes "base_inv G H start s" "loop_body goal s = Continue s'"
  shows "base_inv G H start s'"
  using assms(2)
proof (cases rule: loop_body_Continue)
  case (stale f u)
  then show ?thesis using base_inv_pop(1)[OF assms(1)] by simp
next
  case (expand f u)
  have g: "graph s = G" using assms(1) by (simp add: base_inv_def)
  show ?thesis
    using expand(5) base_inv_pop(2)[OF assms(1)]
  proof (rule relax_simple_rule)
    fix e t t'
    assume "e \<in> set (graph_get (graph s) u)" "base_inv G H start t" "relax_edge u e t = Inr t'"
    then show "base_inv G H start t'"
      using base_inv_relax_edge[of G H start t "fst e" "snd e" u t'] g by simp
  qed
qed

lemma g_score_relax_edge_mono:
  "relax_edge u e s = Inr s' \<Longrightarrow> g_score s n \<noteq> None \<Longrightarrow> g_score s' n \<noteq> None"
  by (cases e) (auto elim!: relax_edge_cases)

lemma relax_defined: "g_score s u \<noteq> None \<Longrightarrow> \<exists>s'. relax u es s = Inr s'"
proof (induction es arbitrary: s)
  case Nil
  then show ?case by simp
next
  case (Cons e es)
  from relax_edge_defined[OF Cons.prems] obtain s1 where e: "relax_edge u e s = Inr s1" by blast
  then have "g_score s1 u \<noteq> None" using Cons.prems by (rule g_score_relax_edge_mono)
  from Cons.IH[OF this] e show ?case by simp
qed

lemma base_inv_popped_defined:
  assumes "base_inv G H start s" "open_set s \<noteq> []"
  shows "g_score s (snd (Min (set (open_set s)))) \<noteq> None"
  using assms Min_set_in[OF assms(2)] by (simp add: base_inv_def del: Min_in)

lemma loop_body_not_Raise:
  assumes "base_inv G H start s" "open_set s \<noteq> []"
  shows "loop_body goal s \<noteq> Raise err s1"
proof -
  obtain f u where m: "Min (set (open_set s)) = (f, u)" by (cases "Min (set (open_set s))")
  with base_inv_popped_defined[OF assms] have "g_score s u \<noteq> None" by simp
  then have "g_score (s\<lparr>open_set := remove1 (f, u) (open_set s),
         closed_set := insert u (closed_set s)\<rparr>) u \<noteq> None" by simp
  from relax_defined[OF this, of "graph_get (graph s) u"] show ?thesis
    using assms(2) m by (auto simp: loop_body_def heappop_def Let_def)
qed

lemma loop_body_AtGoal:
  assumes "loop_body goal s = AtGoal c s1"
  shows "open_set s \<noteq> [] \<and> c = goal \<and> snd (Min (set (open_set s))) = goal \<and>
      s1 = s\<lparr>open_set := remove1 (Min (set (open_set s))) (open_set s)\<rparr>"
  using assms
  by (auto simp: loop_body_def Let_def heappop_def split: sum.splits prod.splits if_splits)


section \<open>The call returns\<close>

lemma reconstruct_chain: "chain cf n \<Longrightarrow> \<exists>p. reconstruct cf (Some n) acc = Some p"
proof (induction arbitrary: acc rule: chain.induct)
  case (chain_root n)
  then show ?case
    by (subst reconstruct.simps) (simp add: came_from_get_def reconstruct.simps)
next
  case (chain_link n p)
  from chain_link.IH[of "acc @ [n]"] chain_link.hyps(1) show ?case
    by (subst reconstruct.simps) (simp add: came_from_get_def)
qed

text \<open>
  Rewriting the predecessor of \<open>v\<close> keeps the chain of a node whose cost is below the old
  cost of \<open>v\<close>: costs do not grow towards the root, so that chain does not pass \<open>v\<close>.
\<close>

lemma chain_upd_below:
  fixes g :: "'n \<rightharpoonup> real"
  assumes "chain cf x"
    and "\<forall>n p. cf n = Some (Some p) \<longrightarrow> (\<exists>gp gn. g p = Some gp \<and> g n = Some gn \<and> gp \<le> gn)"
    and "g x = Some gx" "gx \<le> B"
    and "\<forall>gv. g v = Some gv \<longrightarrow> B < gv"
    and cf': "\<And>n. n \<noteq> v \<Longrightarrow> cf' n = cf n"
  shows "chain cf' x"
  using assms(1,3,4)
proof (induction arbitrary: gx rule: chain.induct)
  case (chain_root n)
  with assms(5) have "n \<noteq> v" by auto
  with chain_root.hyps have "cf' n = Some None" by (simp add: cf')
  then show ?case by (rule chain.chain_root)
next
  case (chain_link n p)
  with assms(5) have nv: "n \<noteq> v" by auto
  from assms(2) chain_link.hyps(1) chain_link.prems obtain gp where
    "g p = Some gp" "gp \<le> gx" by fastforce
  with chain_link.IH[of gp] chain_link.prems have "chain cf' p" by simp
  moreover from nv chain_link.hyps(1) have "cf' n = Some (Some p)" by (simp add: cf')
  ultimately show ?case by (rule chain.chain_link[rotated])
qed

lemma chain_upd_all:
  assumes "chain cf m" "chain cf' v" and cf': "\<And>n. n \<noteq> v \<Longrightarrow> cf' n = cf n"
  shows "chain cf' m"
  using assms(1)
proof (induction rule: chain.induct)
  case (chain_root n)
  show ?case
  proof (cases "n = v")
    case True
    with assms(2) show ?thesis by simp
  next
    case False
    with chain_root have "cf' n = Some None" by (simp add: cf')
    then show ?thesis by (rule chain.chain_root)
  qed
next
  case (chain_link n p)
  show ?case
  proof (cases "n = v")
    case True
    with assms(2) show ?thesis by simp
  next
    case False
    with chain_link.hyps(1) have "cf' n = Some (Some p)" by (simp add: cf')
    then show ?thesis using chain_link.IH by (rule chain.chain_link)
  qed
qed

lemma chain_inv_init: "chain_inv (init_state G H start)"
  by (auto simp: chain_inv_def init_state_def intro: chain_root split: if_splits)

lemma chain_inv_relax_edge:
  assumes "chain_inv s" "0 \<le> w" "relax_edge u (v, w) s = Inr s'"
  shows "chain_inv s'"
  using assms(3)
proof (cases rule: relax_edge_cases)
  case (skip gu gv)
  with assms(1) show ?thesis by simp
next
  case (update gu)
  let ?cf = "came_from s" and ?g = "g_score s"
  from assms(1) have ch: "\<And>n. ?g n \<noteq> None \<Longrightarrow> chain ?cf n"
    and par: "\<forall>n p. ?cf n = Some (Some p) \<longrightarrow>
        (\<exists>gp gn. ?g p = Some gp \<and> ?g n = Some gn \<and> gp \<le> gn)"
    by (auto simp: chain_inv_def)
  have uv: "u \<noteq> v" using update(1,2) assms(2) by auto
  have below: "\<forall>gv. ?g v = Some gv \<longrightarrow> gu < gv \<or> gu + w < gv" using update(2) by auto
  have lt: "\<forall>gv. ?g v = Some gv \<longrightarrow> gu + w < gv" using update(2) by auto
  have "chain ?cf u" using ch update(1) by simp
  then have cu: "chain (?cf(v \<mapsto> Some u)) u"
    using par update(1)
  proof (rule chain_upd_below)
    show "gu \<le> gu" by simp
    show "\<forall>gv. ?g v = Some gv \<longrightarrow> gu < gv" using lt assms(2) by force
  qed simp
  have cv: "chain (?cf(v \<mapsto> Some u)) v"
    by (rule chain_link[of _ _ u]) (simp_all add: cu)
  have 1: "chain (came_from s') n" if "g_score s' n \<noteq> None" for n
  proof (cases "n = v")
    case True
    with cv show ?thesis by (simp add: update(3))
  next
    case False
    with that have "?g n \<noteq> None" by (simp add: update(3))
    then have "chain ?cf n" by (rule ch)
    then have "chain (?cf(v \<mapsto> Some u)) n" using cv by (rule chain_upd_all) simp
    then show ?thesis by (simp add: update(3))
  qed
  have 2: "\<exists>gp gn. g_score s' p = Some gp \<and> g_score s' n = Some gn \<and> gp \<le> gn"
    if cf: "came_from s' n = Some (Some p)" for n p
  proof (cases "n = v")
    case True
    with cf have "p = u" by (simp add: update(3))
    with True uv update(1) assms(2) show ?thesis by (simp add: update(3))
  next
    case False
    with cf have "?cf n = Some (Some p)" by (simp add: update(3))
    with par obtain gp gn where o: "?g p = Some gp" "?g n = Some gn" "gp \<le> gn" by blast
    show ?thesis
    proof (cases "p = v")
      case True
      with o lt have "gu + w < gp" by simp
      with o True False show ?thesis by (simp add: update(3))
    next
      case pv: False
      with o False show ?thesis by (simp add: update(3))
    qed
  qed
  from 1 2 show ?thesis unfolding chain_inv_def by blast
qed

lemma chain_inv_step:
  assumes "nonneg_weights (graph s)" "chain_inv s" "loop_body goal s = Continue s'"
  shows "chain_inv s'"
  using assms(3)
proof (cases rule: loop_body_Continue)
  case (stale f u)
  with assms(2) show ?thesis by (simp add: chain_inv_def)
next
  case (expand f u)
  from assms(2) have
    "chain_inv (s\<lparr>open_set := remove1 (f, u) (open_set s), closed_set := insert u (closed_set s)\<rparr>)"
    by (simp add: chain_inv_def)
  with expand(5) show ?thesis
  proof (rule relax_simple_rule)
    fix e t t'
    assume e: "e \<in> set (graph_get (graph s) u)" and "chain_inv t" "relax_edge u e t = Inr t'"
    moreover from e assms(1) have "0 \<le> snd e"
      using nonneg_edge[of "graph s" "fst e" "snd e" u] by simp
    ultimately show "chain_inv t'"
      using chain_inv_relax_edge[of t "snd e" u "fst e" t'] by simp
  qed
qed

lemma return_path_defined:
  assumes "chain_inv s" "g_score s n = Some c"
  shows "\<exists>p. return_path n s = Some (Inr (Some p, Fin c))"
proof -
  from assms have "chain (came_from s) n" by (simp add: chain_inv_def)
  from reconstruct_chain[OF this, of "[]"] assms(2) show ?thesis
    by (auto simp: return_path_def)
qed

lemma search_returns:
  assumes "nonneg_weights G" "base_inv G H start s" "chain_inv s"
  shows "\<exists>r s'. search goal s = Some (Inr r, s') \<and>
           (r = (None, PosInf) \<or> (\<exists>p c. r = (Some p, Fin c)))"
proof -
  from search_final[of goal s] obtain k sf where
    it: "iterate k goal s = Some sf" and eq: "search goal s = search goal sf" and
    fin: "open_set sf = [] \<or> (\<forall>s'. loop_body goal sf \<noteq> Continue s')" by blast
  have "base_inv G H start sf \<and> chain_inv sf"
    using it
  proof (rule iterate_inv)
    show "base_inv G H start s \<and> chain_inv s" using assms by simp
  next
    fix t t' assume "base_inv G H start t \<and> chain_inv t" "loop_body goal t = Continue t'"
    then show "base_inv G H start t' \<and> chain_inv t'"
      using base_inv_step[of G H start t goal t'] chain_inv_step[of t goal t'] assms(1)
      by (auto simp: base_inv_def)
  qed
  then have inv: "base_inv G H start sf" and cinv: "chain_inv sf" by simp_all
  show ?thesis
  proof (cases "open_set sf = []")
    case True
    then show ?thesis using eq by (simp add: search.simps)
  next
    case False
    show ?thesis
    proof (cases "loop_body goal sf")
      case (AtGoal c s1)
      from loop_body_AtGoal[OF AtGoal] have c: "c = goal"
        and m: "snd (Min (set (open_set sf))) = goal"
        and s1: "s1 = sf\<lparr>open_set := remove1 (Min (set (open_set sf))) (open_set sf)\<rparr>"
        by simp_all
      from base_inv_popped_defined[OF inv False] m obtain gc where "g_score sf goal = Some gc"
        by auto
      then have g1: "g_score s1 goal = Some gc" by (simp add: s1)
      have "chain_inv s1" using cinv by (simp add: chain_inv_def s1)
      from return_path_defined[OF this g1] obtain p where
        "return_path goal s1 = Some (Inr (Some p, Fin gc))" by blast
      then show ?thesis using eq False AtGoal c by (simp add: search.simps)
    next
      case (Raise e s1)
      with loop_body_not_Raise[OF inv False] show ?thesis by simp
    next
      case (Continue s1)
      with fin False show ?thesis by simp
    qed
  qed
qed

lemma a_star_returns:
  assumes "nonneg_weights G"
  shows "\<exists>r. a_star G H start goal = Some (Inr r) \<and>
           (r = (None, PosInf) \<or> (\<exists>p c. r = (Some p, Fin c)))"
  using search_returns[OF assms base_inv_init chain_inv_init, where H=H and start=start and goal=goal]
  by (auto simp: a_star_def a_star_run_def)

section \<open>Expansions\<close>


lemma closed_set_step:
  assumes "loop_body goal s = Continue s'"
  shows "closed_set s \<subseteq> closed_set s'"
  using assms
  by (cases rule: loop_body_Continue) (auto dest: relax_frame)

lemma expands_closed:
  assumes "expands goal s n" "loop_body goal s = Continue s'"
  shows "n \<in> closed_set s'"
  using assms(2,1)
  by (cases rule: loop_body_Continue) (auto simp: expands_def dest: relax_frame)

lemma iterate_add:
  "iterate (i + k) goal s = (case iterate i goal s of None \<Rightarrow> None | Some s' \<Rightarrow> iterate k goal s')"
  by (induction i arbitrary: s) (auto split: iteration.splits)

lemma expands_once:
  assumes "i < j" "iterate i goal s = Some si" "iterate j goal s = Some sj" "expands goal si n"
  shows "\<not> expands goal sj n"
proof -
  from assms(1) obtain k where j: "j = i + Suc k" by (auto simp: less_iff_Suc_add)
  with assms(2,3) iterate_add[of i "Suc k" goal s] have "iterate (Suc k) goal si = Some sj" by simp
  then obtain s1 where c: "loop_body goal si = Continue s1" and it: "iterate k goal s1 = Some sj"
    by (auto split: if_splits iteration.splits)
  from expands_closed[OF assms(4) c] have "n \<in> closed_set s1" .
  with it have "n \<in> closed_set sj"
    by (rule iterate_inv) (auto dest: closed_set_step)
  then show ?thesis by (simp add: expands_def)
qed

section \<open>The search without a heuristic\<close>




section \<open>Optimality with a consistent heuristic\<close>

lemma consistent_walk:
  assumes "consistent G H" "walk G a b c"
  shows "h_get H a \<le> c + h_get H b"
  using assms(2)
proof (induction rule: walk.induct)
  case walk_empty
  show ?case by simp
next
  case (walk_edge x c v w)
  from consistent_edge[OF assms(1) walk_edge.hyps(2)] walk_edge.IH show ?case by simp
qed

lemma consistent_cycle_nonneg: "consistent G H \<Longrightarrow> walk G a a c \<Longrightarrow> 0 \<le> c"
  using consistent_walk[of G H a a c] by simp

text \<open>
  Along a walk from the start, either its end is closed at a cost no higher than the
  walk, or the queue holds an entry no higher than the walk plus the estimate at its
  end.
\<close>

lemma frontier_bound:
  assumes "consistent G H" "opt_inv G H start (closed_set s) s" "walk G start t c"
  shows "(t \<in> closed_set s \<and> (\<exists>gt. g_score s t = Some gt \<and> gt \<le> c)) \<or>
         (\<exists>e \<in> set (open_set s). fst e \<le> c + h_get H t)"
  using assms(3)
proof (induction rule: walk.induct)
  case walk_empty
  from assms(2) have g0: "g_score s start = Some 0" by (simp add: opt_inv_def)
  show ?case
  proof (cases "start \<in> closed_set s")
    case True
    with g0 show ?thesis by simp
  next
    case False
    with assms(2) g0 have "(0 + h_get H start, start) \<in> set (open_set s)"
      unfolding opt_inv_def by blast
    then show ?thesis by force
  qed
next
  case (walk_edge x c v w)
  from walk_edge.IH show ?case
  proof
    assume l: "x \<in> closed_set s \<and> (\<exists>gt. g_score s x = Some gt \<and> gt \<le> c)"
    then obtain gx where gx: "g_score s x = Some gx" "gx \<le> c" by blast
    from assms(2) l walk_edge.hyps(2) obtain gx' gv where
      "g_score s x = Some gx'" "g_score s v = Some gv" "gv \<le> gx' + w"
      unfolding opt_inv_def by force
    with gx have gv: "g_score s v = Some gv" "gv \<le> c + w" by simp_all
    show ?thesis
    proof (cases "v \<in> closed_set s")
      case True
      with gv show ?thesis by simp
    next
      case False
      with assms(2) gv(1) have "(gv + h_get H v, v) \<in> set (open_set s)"
        unfolding opt_inv_def by blast
      with gv(2) show ?thesis by force
    qed
  next
    assume "\<exists>e\<in>set (open_set s). fst e \<le> c + h_get H x"
    then obtain e where "e \<in> set (open_set s)" "fst e \<le> c + h_get H x" by blast
    with consistent_edge[OF assms(1) walk_edge.hyps(2)] show ?thesis by force
  qed
qed

text \<open>The cost of a node popped while it is not closed is the least cost of a walk to it.\<close>

lemma popped_optimal:
  assumes "consistent G H" "opt_inv G H start (closed_set s) s" "open_set s \<noteq> []"
    "Min (set (open_set s)) = (f, u)" "u \<notin> closed_set s"
  shows "\<exists>gu. g_score s u = Some gu \<and> (\<forall>c. walk G start u c \<longrightarrow> gu \<le> c)"
proof -
  have "(f, u) \<in> set (open_set s)" using Min_set_in[OF assms(3)] assms(4) by simp
  with assms(2) obtain gu where gu: "g_score s u = Some gu" "gu + h_get H u \<le> f"
    unfolding opt_inv_def by force
  have "gu \<le> c" if "walk G start u c" for c
  proof -
    from frontier_bound[OF assms(1,2) that] assms(5) obtain e where
      e: "e \<in> set (open_set s)" "fst e \<le> c + h_get H u" by blast
    from Min_set_le[OF e(1)] assms(4) have "(f, u) \<le> e" by simp
    then have "f \<le> fst e" by (cases e) (auto simp: less_eq_prod_def)
    with gu(2) e(2) show ?thesis by simp
  qed
  with gu(1) show ?thesis by blast
qed

lemma opt_inv_init: "opt_inv G H start {} (init_state G H start)"
  by (simp add: opt_inv_def init_state_def heappush_def)

lemma opt_inv_stale:
  assumes "opt_inv G H start X s" "u \<in> closed_set s"
  shows "opt_inv G H start X (s\<lparr>open_set := remove1 (f, u) (open_set s)\<rparr>)"
proof -
  have 4: "(c + h_get H n, n) \<in> set (remove1 (f, u) (open_set s))"
    if "g_score s n = Some c" "n \<notin> closed_set s" for n c
  proof -
    from assms(1) that have "(c + h_get H n, n) \<in> set (open_set s)"
      unfolding opt_inv_def by blast
    moreover from that(2) assms(2) have "(c + h_get H n, n) \<noteq> (f, u)" by auto
    ultimately show ?thesis by simp
  qed
  have 5: "\<exists>c. g_score s (snd e) = Some c \<and> c + h_get H (snd e) \<le> fst e"
    if "e \<in> set (remove1 (f, u) (open_set s))" for e
  proof -
    from that have "e \<in> set (open_set s)" using set_remove1_subset by fast
    with assms(1) show ?thesis unfolding opt_inv_def by blast
  qed
  from assms(1) 4 5 show ?thesis unfolding opt_inv_def by simp
qed


lemma opt_inv_close:
  assumes "opt_inv G H start (closed_set s) s" "u \<notin> closed_set s" "g_score s u = Some gu"
    "\<forall>c. walk G start u c \<longrightarrow> gu \<le> c"
  shows "opt_inv G H start (closed_set s)
     (s\<lparr>open_set := remove1 (f, u) (open_set s), closed_set := insert u (closed_set s)\<rparr>)"
proof -
  have 2: "\<exists>c. g_score s n = Some c \<and> (\<forall>c'. walk G start n c' \<longrightarrow> c \<le> c')"
    if "n \<in> insert u (closed_set s)" for n
    using that assms unfolding opt_inv_def by blast
  have 4: "(c + h_get H n, n) \<in> set (remove1 (f, u) (open_set s))"
    if "g_score s n = Some c" "n \<notin> insert u (closed_set s)" for n c
  proof -
    from assms(1) that have "(c + h_get H n, n) \<in> set (open_set s)"
      unfolding opt_inv_def by blast
    moreover from that(2) have "(c + h_get H n, n) \<noteq> (f, u)" by auto
    ultimately show ?thesis by simp
  qed
  have 5: "\<exists>c. g_score s (snd e) = Some c \<and> c + h_get H (snd e) \<le> fst e"
    if "e \<in> set (remove1 (f, u) (open_set s))" for e
  proof -
    from that have "e \<in> set (open_set s)" using set_remove1_subset by fast
    with assms(1) show ?thesis unfolding opt_inv_def by blast
  qed
  from assms(1) have 1: "g_score s start = Some 0" and
    3: "\<forall>x \<in> closed_set s. \<forall>e \<in> set (graph_get G x).
        \<exists>gx gv. g_score s x = Some gx \<and> g_score s (fst e) = Some gv \<and> gv \<le> gx + snd e"
    unfolding opt_inv_def by blast+
  from 1 2 3 4 5 show ?thesis unfolding opt_inv_def by simp
qed

lemma opt_inv_update:
  assumes inv: "opt_inv G H start X t" and sub: "X \<subseteq> closed_set t"
    and nc: "v \<notin> closed_set t" and ns: "v \<noteq> start"
    and lt: "\<forall>gv. g_score t v = Some gv \<longrightarrow> nv < gv"
    and t': "g_score t' = (g_score t)(v \<mapsto> nv)" "open_set t' = (nv + h_get H v, v) # open_set t"
      "closed_set t' = closed_set t"
  shows "opt_inv G H start X t'"
proof -
  from inv have 1: "g_score t start = Some 0"
    and 2: "\<And>n. n \<in> closed_set t \<Longrightarrow>
        \<exists>c. g_score t n = Some c \<and> (\<forall>c'. walk G start n c' \<longrightarrow> c \<le> c')"
    and 3: "\<And>x e. x \<in> X \<Longrightarrow> e \<in> set (graph_get G x) \<Longrightarrow>
        \<exists>gx gv. g_score t x = Some gx \<and> g_score t (fst e) = Some gv \<and> gv \<le> gx + snd e"
    and 4: "\<And>n c. g_score t n = Some c \<Longrightarrow> n \<notin> closed_set t \<Longrightarrow>
        (c + h_get H n, n) \<in> set (open_set t)"
    and 5: "\<And>e. e \<in> set (open_set t) \<Longrightarrow>
        \<exists>c. g_score t (snd e) = Some c \<and> c + h_get H (snd e) \<le> fst e"
    unfolding opt_inv_def by blast+
  have n1: "g_score t' start = Some 0" using 1 ns by (simp add: t')
  have n2: "\<exists>c. g_score t' n = Some c \<and> (\<forall>c'. walk G start n c' \<longrightarrow> c \<le> c')"
    if "n \<in> closed_set t'" for n
  proof -
    from that nc have "n \<noteq> v" "n \<in> closed_set t" by (auto simp: t')
    with 2[of n] show ?thesis by (simp add: t')
  qed
  have n3: "\<exists>gx gv. g_score t' x = Some gx \<and> g_score t' (fst e) = Some gv \<and> gv \<le> gx + snd e"
    if "x \<in> X" "e \<in> set (graph_get G x)" for x e
  proof -
    from that(1) sub nc have xv: "x \<noteq> v" by auto
    from 3[OF that] obtain gx gv where
      o: "g_score t x = Some gx" "g_score t (fst e) = Some gv" "gv \<le> gx + snd e" by blast
    show ?thesis
    proof (cases "fst e = v")
      case True
      with o(2) lt have "nv < gv" by simp
      with o xv True show ?thesis by (simp add: t')
    next
      case False
      with o xv show ?thesis by (simp add: t')
    qed
  qed
  have n4: "(c + h_get H n, n) \<in> set (open_set t')"
    if "g_score t' n = Some c" "n \<notin> closed_set t'" for n c
  proof (cases "n = v")
    case True
    with that(1) show ?thesis by (simp add: t')
  next
    case False
    with that have "g_score t n = Some c" "n \<notin> closed_set t" by (simp_all add: t')
    from 4[OF this] show ?thesis by (simp add: t')
  qed
  have n5: "\<exists>c. g_score t' (snd e) = Some c \<and> c + h_get H (snd e) \<le> fst e"
    if "e \<in> set (open_set t')" for e
  proof (cases "e = (nv + h_get H v, v)")
    case True
    then show ?thesis by (simp add: t')
  next
    case False
    with that have "e \<in> set (open_set t)" by (simp add: t')
    from 5[OF this] obtain c where c: "g_score t (snd e) = Some c" "c + h_get H (snd e) \<le> fst e"
      by blast
    show ?thesis
    proof (cases "snd e = v")
      case True
      with c(1) lt have "nv < c" by simp
      with c True show ?thesis by (simp add: t')
    next
      case False
      with c show ?thesis by (simp add: t')
    qed
  qed
  from n1 n2 n3 n4 n5 show ?thesis unfolding opt_inv_def by blast
qed

lemma opt_inv_extend:
  assumes "opt_inv G H start X t"
    and "\<forall>e \<in> set (graph_get G u).
       \<exists>gu gv. g_score t u = Some gu \<and> g_score t (fst e) = Some gv \<and> gv \<le> gu + snd e"
  shows "opt_inv G H start (insert u X) t"
  using assms unfolding opt_inv_def by blast

lemma opt_relax_edge:
  assumes con: "consistent G H"
    and base: "base_inv G H start t"
    and inv: "opt_inv G H start X t" and sub: "X \<subseteq> closed_set t" and uc: "u \<in> closed_set t"
    and rel: "\<forall>e \<in> D. \<exists>gu gv. g_score t u = Some gu \<and> g_score t (fst e) = Some gv \<and> gv \<le> gu + snd e"
    and edge: "(v, w) \<in> set (graph_get G u)"
    and step: "relax_edge u (v, w) t = Inr t'"
  shows "base_inv G H start t' \<and> opt_inv G H start X t' \<and> X \<subseteq> closed_set t' \<and> u \<in> closed_set t' \<and>
    (\<forall>e \<in> insert (v, w) D.
       \<exists>gu gv. g_score t' u = Some gu \<and> g_score t' (fst e) = Some gv \<and> gv \<le> gu + snd e)"
proof -
  have base': "base_inv G H start t'" using base edge step by (rule base_inv_relax_edge)
  from step show ?thesis
  proof (cases rule: relax_edge_cases)
    case (skip gu gv)
    with base inv sub uc rel show ?thesis by simp
  next
    case (update gu)
    from base have hH: "h t = H" by (simp add: base_inv_def)
    from base update(1) have "walk G start u gu" by (simp add: base_inv_def)
    then have wv: "walk G start v (gu + w)" using edge by (rule walk_edge)
    have nc: "v \<notin> closed_set t"
    proof
      assume "v \<in> closed_set t"
      with inv obtain c where "g_score t v = Some c" "\<forall>c'. walk G start v c' \<longrightarrow> c \<le> c'"
        unfolding opt_inv_def by blast
      with wv update(2) show False by force
    qed
    with uc have uv: "u \<noteq> v" by auto
    have ns: "v \<noteq> start"
    proof
      assume "v = start"
      with wv con have "0 \<le> gu + w" by (auto dest: consistent_cycle_nonneg)
      moreover from inv have "g_score t start = Some 0" by (simp add: opt_inv_def)
      ultimately show False using update(2) \<open>v = start\<close> by force
    qed
    have lt: "\<forall>gv. g_score t v = Some gv \<longrightarrow> gu + w < gv" using update(2) by simp
    have inv': "opt_inv G H start X t'"
      using inv sub nc ns lt by (rule opt_inv_update) (simp_all add: update(3) hH)
    have d': "\<exists>gu' gv. g_score t' u = Some gu' \<and> g_score t' (fst e) = Some gv \<and> gv \<le> gu' + snd e"
      if "e \<in> insert (v, w) D" for e
    proof (cases "fst e = v")
      case True
      show ?thesis
      proof (cases "e = (v, w)")
        case True
        with uv update(1) show ?thesis by (simp add: update(3))
      next
        case False
        with that have "e \<in> D" by simp
        with rel update(1) obtain gv where "g_score t (fst e) = Some gv" "gv \<le> gu + snd e"
          by fastforce
        with True lt have "gu + w \<le> gu + snd e" by force
        with True uv update(1) show ?thesis by (simp add: update(3))
      qed
    next
      case False
      with that have "e \<in> D" by auto
      with rel update(1) obtain gv where "g_score t (fst e) = Some gv" "gv \<le> gu + snd e"
        by fastforce
      with False uv update(1) show ?thesis by (simp add: update(3))
    qed
    from base' inv' d' sub uc show ?thesis by (simp add: update(3))
  qed
qed

lemma opt_inv_step:
  assumes con: "consistent G H" and base: "base_inv G H start s"
    and inv: "opt_inv G H start (closed_set s) s"
    and step: "loop_body goal s = Continue s'"
  shows "opt_inv G H start (closed_set s') s'"
  using step
proof (cases rule: loop_body_Continue)
  case (stale f u)
  with opt_inv_stale[OF inv stale(4), of f] show ?thesis by simp
next
  case (expand f u)
  let ?s2 = "s\<lparr>open_set := remove1 (f, u) (open_set s), closed_set := insert u (closed_set s)\<rparr>"
  let ?X = "closed_set s"
  let ?J = "\<lambda>D t. base_inv G H start t \<and> opt_inv G H start ?X t \<and> ?X \<subseteq> closed_set t \<and>
     u \<in> closed_set t \<and>
     (\<forall>e \<in> D. \<exists>gu gv. g_score t u = Some gu \<and> g_score t (fst e) = Some gv \<and> gv \<le> gu + snd e)"
  from base have gG: "graph s = G" by (simp add: base_inv_def)
  from popped_optimal[OF con inv expand(1,2,4)] obtain gu where
    gu: "g_score s u = Some gu" "\<forall>c. walk G start u c \<longrightarrow> gu \<le> c" by blast
  have J0: "?J {} ?s2"
    using base_inv_pop(2)[OF base, where x="(f, u)" and C="insert u (closed_set s)"]
      opt_inv_close[OF inv expand(4) gu, of f]
    by auto
  have "?J ({} \<union> set (graph_get (graph s) u)) s'"
    using expand(5) J0
  proof (rule relax_rule[where J="?J"])
    fix e D t t'
    assume e: "e \<in> set (graph_get (graph s) u)" and J: "?J D t" and r: "relax_edge u e t = Inr t'"
    have "(fst e, snd e) \<in> set (graph_get G u)" using e gG by simp
    moreover have "relax_edge u (fst e, snd e) t = Inr t'" using r by simp
    ultimately have "?J (insert (fst e, snd e) D) t'"
      using opt_relax_edge[OF con, of start t ?X u D "fst e" "snd e" t'] J by blast
    then show "?J (insert e D) t'" by simp
  qed
  then have inv': "opt_inv G H start ?X s'"
    and d: "\<forall>e \<in> set (graph_get G u).
       \<exists>gu gv. g_score s' u = Some gu \<and> g_score s' (fst e) = Some gv \<and> gv \<le> gu + snd e"
    using gG by simp_all
  from relax_frame[OF expand(5)] have "closed_set s' = insert u ?X" by simp
  with opt_inv_extend[OF inv' d] show ?thesis by simp
qed

lemma goal_not_closed_step:
  assumes "goal \<notin> closed_set s" "loop_body goal s = Continue s'"
  shows "goal \<notin> closed_set s'"
  using assms(2,1)
  by (cases rule: loop_body_Continue) (auto dest: relax_frame)

lemma search_optimal:
  assumes con: "consistent G H" and base: "base_inv G H start s"
    and inv: "opt_inv G H start (closed_set s) s" and gc: "goal \<notin> closed_set s"
    and res: "search goal s = Some (Inr (Some p, c), s')"
  shows "\<exists>m. c = Fin m \<and> min_cost G start goal m"
proof -
  from search_final[of goal s] obtain k sf where
    it: "iterate k goal s = Some sf" and eq: "search goal s = search goal sf" and
    fin: "open_set sf = [] \<or> (\<forall>s'. loop_body goal sf \<noteq> Continue s')" by blast
  let ?I = "\<lambda>t. base_inv G H start t \<and> opt_inv G H start (closed_set t) t \<and> goal \<notin> closed_set t"
  have "?I sf"
    using it
  proof (rule iterate_inv)
    show "?I s" using base inv gc by simp
  next
    fix t t' assume "?I t" "loop_body goal t = Continue t'"
    then show "?I t'"
      using base_inv_step[of G H start t goal t'] opt_inv_step[OF con, of start t goal t']
        goal_not_closed_step[of goal t t'] by blast
  qed
  then have b: "base_inv G H start sf" and o: "opt_inv G H start (closed_set sf) sf"
    and g: "goal \<notin> closed_set sf" by simp_all
  show ?thesis
  proof (cases "open_set sf = []")
    case True
    with eq res show ?thesis by (simp add: search.simps)
  next
    case False
    show ?thesis
    proof (cases "loop_body goal sf")
      case (AtGoal c1 s1)
      from loop_body_AtGoal[OF AtGoal] have c1: "c1 = goal"
        and m: "snd (Min (set (open_set sf))) = goal"
        and s1: "s1 = sf\<lparr>open_set := remove1 (Min (set (open_set sf))) (open_set sf)\<rparr>"
        by simp_all
      obtain f where mf: "Min (set (open_set sf)) = (f, goal)"
        using m by (cases "Min (set (open_set sf))") simp
      from popped_optimal[OF con o False mf g] obtain gg where
        gg: "g_score sf goal = Some gg" "\<forall>c. walk G start goal c \<longrightarrow> gg \<le> c" by blast
      from b gg(1) have "walk G start goal gg" by (simp add: base_inv_def)
      with gg(2) have mc: "min_cost G start goal gg" by (simp add: min_cost_def)
      from eq res False AtGoal c1 have "return_path goal s1 = Some (Inr (Some p, c))"
        by (auto simp: search.simps)
      with gg(1) have "c = Fin gg"
        by (auto simp: return_path_def s1 split: option.splits)
      with mc show ?thesis by blast
    next
      case (Raise e s1)
      with eq res False show ?thesis by (simp add: search.simps)
    next
      case (Continue s1)
      with fin False show ?thesis by simp
    qed
  qed
qed

lemma a_star_optimal:
  assumes "consistent G H" "a_star G H start goal = Some (Inr (Some p, c))"
  shows "\<exists>m. c = Fin m \<and> min_cost G start goal m"
proof -
  from assms(2) obtain s' where "search goal (init_state G H start) = Some (Inr (Some p, c), s')"
    by (auto simp: a_star_def a_star_run_def)
  moreover have "opt_inv G H start (closed_set (init_state G H start)) (init_state G H start)"
    using opt_inv_init[of G H start] by (simp add: init_state_def)
  moreover have "goal \<notin> closed_set (init_state G H start)" by (simp add: init_state_def)
  ultimately show ?thesis using search_optimal[OF assms(1) base_inv_init] by blast
qed

lemma admissible_below_consistent:
  assumes "consistent G P" "h_get P goal = 0" "\<forall>n. h_get H n \<le> h_get P n"
  shows "admissible G H goal"
  unfolding admissible_def
proof (intro allI impI)
  fix n c assume "walk G n goal c"
  from consistent_walk[OF assms(1) this] assms(2) have "h_get P n \<le> c" by simp
  with assms(3) show "h_get H n \<le> c" by (meson order_trans)
qed


section \<open>The conversion of ints to floats\<close>

lemma float_limit_big: "(1000::real) < float_limit"
  by (simp add: float_limit_def)

lemma huge_int_overflows: "float_limit \<le> \<bar>huge_int\<bar>"
  by (simp add: float_limit_def huge_int_def)

lemma huge_int_nonneg: "0 \<le> huge_int"
  by (simp add: huge_int_def)

lemma one_in_range: "\<not> float_limit \<le> 1"
  using float_limit_big by simp

text \<open>Where no number reaches the limit, the conversion changes nothing.\<close>

lemma float_add_in_range: "\<bar>y\<bar> < float_limit \<Longrightarrow> float_add x y = Inr (x + y)"
  by (simp add: float_add_def)

lemma relax_edge_conv_eq:
  assumes "\<bar>w\<bar> < float_limit" "\<bar>h_get (h s) v\<bar> < float_limit"
  shows "relax_edge_conv u (v, w) s = relax_edge u (v, w) s"
  using assms
  by (simp add: relax_edge_conv_def relax_edge_def float_add_in_range Let_def
      split: option.splits)

lemma relax_conv_eq:
  assumes "\<forall>e \<in> set es. \<bar>snd e\<bar> < float_limit" "\<forall>n. \<bar>h_get (h s) n\<bar> < float_limit"
  shows "relax_conv u es s = relax u es s"
  using assms
proof (induction es arbitrary: s)
  case Nil
  show ?case by simp
next
  case (Cons e es)
  from Cons.prems have eq: "relax_edge_conv u e s = relax_edge u e s"
    using relax_edge_conv_eq[of "snd e" s "fst e" u] by simp
  show ?case
  proof (cases "relax_edge u e s")
    case (Inl err)
    with eq show ?thesis by simp
  next
    case (Inr s1)
    then have "h s1 = h s" by (rule relax_edge_frame)
    with Cons.prems have "relax_conv u es s1 = relax u es s1"
      by (intro Cons.IH) simp_all
    with eq Inr show ?thesis by simp
  qed
qed

lemma in_float_range_edge:
  "in_float_range G H \<Longrightarrow> (v, w) \<in> set (graph_get G u) \<Longrightarrow> \<bar>w\<bar> < float_limit"
  by (erule graph_get_edge) (auto simp: in_float_range_def list_all_iff)

lemma loop_body_conv_eq:
  assumes "in_float_range (graph s) (h s)"
  shows "loop_body_conv goal s = loop_body goal s"
proof -
  have "relax_conv u (graph_get (graph s) u) (s\<lparr>open_set := q, closed_set := C\<rparr>) =
        relax u (graph_get (graph s) u) (s\<lparr>open_set := q, closed_set := C\<rparr>)" for u q C
  proof (intro relax_conv_eq)
    show "\<forall>e \<in> set (graph_get (graph s) u). \<bar>snd e\<bar> < float_limit"
      using in_float_range_edge[OF assms] by auto
    show "\<forall>n. \<bar>h_get (h (s\<lparr>open_set := q, closed_set := C\<rparr>)) n\<bar> < float_limit"
      using assms by (simp add: in_float_range_def)
  qed
  then show ?thesis
    by (simp add: loop_body_conv_def loop_body_def Let_def split: sum.splits prod.splits)
qed

lemma loop_body_frame:
  assumes "loop_body goal s = Continue s'"
  shows "graph s' = graph s \<and> h s' = h s"
  using assms by (cases rule: loop_body_Continue) (auto dest: relax_frame)

lemma search_conv_eq:
  assumes "in_float_range (graph s) (h s)"
  shows "search_conv goal s = search goal s"
  using assms
proof (induction s rule: search_induct[where goal=goal])
  case (step s)
  note lb = loop_body_conv_eq[OF step.prems, of goal]
  show ?case
  proof (cases "open_set s = []")
    case True
    then show ?thesis by (simp add: search.simps search_conv.simps)
  next
    case False
    show ?thesis
    proof (cases "loop_body goal s")
      case (AtGoal c s1)
      with False lb show ?thesis by (simp add: search.simps search_conv.simps)
    next
      case (Raise e s1)
      with False lb show ?thesis by (simp add: search.simps search_conv.simps)
    next
      case (Continue s1)
      from loop_body_frame[OF Continue] step.prems have "in_float_range (graph s1) (h s1)"
        by simp
      from step.IH[OF False Continue this] have "search_conv goal s1 = search goal s1" .
      moreover have "search_conv goal s = search_conv goal s1"
        using False lb Continue by (subst search_conv.simps) simp
      moreover have "search goal s = search goal s1"
        using False Continue by (subst search.simps) simp
      ultimately show ?thesis by simp
    qed
  qed
qed

lemma a_star_conv_eq:
  assumes "in_float_range G H"
  shows "a_star_conv G H start goal = a_star G H start goal"
  using search_conv_eq[of "init_state G H start" goal] assms
  by (simp add: a_star_conv_def a_star_def a_star_run_def init_state_def)

section \<open>The claims\<close>

text \<open>
  C1. On the graph and the heuristic table of \<^verbatim>\<open>main\<close>, the call
  \<^verbatim>\<open>a_star(graph, heuristic, 'S', 'G2')\<close> returns the path S, B, F, D, G2 with
  total cost 9.
\<close>

theorem main_graph_S_G2:
  "a_star main_graph main_heuristic ''S'' ''G2'' =
     Some (Inr (Some [''S'', ''B'', ''F'', ''D'', ''G2''], Fin 9))"
  by code_simp

text \<open>
  C2, as stated: with non-negative weights and an admissible heuristic the returned
  cost is the minimum cost. It fails on \<open>shortcut_graph\<close>: B is closed at cost 6 before A
  lowers it to 4, the entry pushed for the lower cost is dropped when it is popped, and
  the call returns the edge S to G at cost 25 although S, A, B, G costs 24.
\<close>

theorem admissible_not_optimal:
  "nonneg_weights shortcut_graph \<and>
   admissible shortcut_graph shortcut_heuristic ''G'' \<and>
   a_star shortcut_graph shortcut_heuristic ''S'' ''G'' = Some (Inr (Some [''S'', ''G''], Fin 25)) \<and>
   walk shortcut_graph ''S'' ''G'' 24 \<and>
   \<not> min_cost shortcut_graph ''S'' ''G'' 25"
proof -
  have nn: "nonneg_weights shortcut_graph"
    by (simp add: nonneg_weights_def shortcut_graph_def)
  have "consistent shortcut_graph shortcut_exact"
    by (simp add: consistent_def shortcut_graph_def shortcut_exact_def h_get_def)
  moreover have "h_get shortcut_exact ''G'' = 0"
    by (simp add: shortcut_exact_def h_get_def)
  moreover have "\<forall>n. h_get shortcut_heuristic n \<le> h_get shortcut_exact n"
    by (simp add: shortcut_heuristic_def shortcut_exact_def h_get_def)
  ultimately have ad: "admissible shortcut_graph shortcut_heuristic ''G''"
    by (rule admissible_below_consistent)
  have run: "a_star shortcut_graph shortcut_heuristic ''S'' ''G'' =
      Some (Inr (Some [''S'', ''G''], Fin 25))"
    by code_simp
  have "walk shortcut_graph ''S'' ''A'' (0 + 2)"
    by (rule walk_edge [OF walk_empty]) (simp add: graph_get_def shortcut_graph_def)
  then have "walk shortcut_graph ''S'' ''B'' (0 + 2 + 2)"
    by (rule walk_edge) (simp add: graph_get_def shortcut_graph_def)
  then have "walk shortcut_graph ''S'' ''G'' (0 + 2 + 2 + 20)"
    by (rule walk_edge) (simp add: graph_get_def shortcut_graph_def)
  then have w: "walk shortcut_graph ''S'' ''G'' 24" by simp
  then have "\<not> min_cost shortcut_graph ''S'' ''G'' 25"
    by (auto simp: min_cost_def)
  with nn ad run w show ?thesis by blast
qed

text \<open>
  C2, amended: with non-negative weights and a consistent heuristic, when the call
  returns a path, the returned cost is the minimum cost of the walks from the start to
  the goal.
\<close>

theorem consistent_optimal:
  assumes "nonneg_weights G" and "consistent G H"
    and "a_star G H start goal = Some (Inr (Some p, c))"
  shows "\<exists>m. c = Fin m \<and> min_cost G start goal m"
  using assms(2,3) by (rule a_star_optimal)

theorem consistent_optimal_witness:
  "nonneg_weights shortcut_graph \<and> consistent shortcut_graph shortcut_exact \<and>
   a_star shortcut_graph shortcut_exact ''S'' ''G'' =
     Some (Inr (Some [''S'', ''A'', ''B'', ''G''], Fin 24)) \<and>
   min_cost shortcut_graph ''S'' ''G'' 24"
proof -
  have nn: "nonneg_weights shortcut_graph"
    by (simp add: nonneg_weights_def shortcut_graph_def)
  have con: "consistent shortcut_graph shortcut_exact"
    by (simp add: consistent_def shortcut_graph_def shortcut_exact_def h_get_def)
  have run: "a_star shortcut_graph shortcut_exact ''S'' ''G'' =
      Some (Inr (Some [''S'', ''A'', ''B'', ''G''], Fin 24))"
    by code_simp
  from consistent_optimal [OF nn con run] have "min_cost shortcut_graph ''S'' ''G'' 24" by simp
  with nn con run show ?thesis by blast
qed

text \<open>
  C3. For every graph, every heuristic table and every node \<open>x\<close>, the call from \<open>x\<close> to
  \<open>x\<close> returns the one-node path \<open>[x]\<close> with cost 0: the first entry popped is the
  start, which is the goal.
\<close>

theorem trivial_path:
  "a_star G H x x = Some (Inr (Some [x], Fin 0))"
  by (simp add: a_star_def a_star_run_def init_state_def search.simps loop_body_def
      heappop_def heappush_def return_path_def reconstruct.simps came_from_get_def)

theorem trivial_path_witness:
  "a_star main_graph main_heuristic ''G3'' ''G3'' = Some (Inr (Some [''G3''], Fin 0))"
  using trivial_path [of main_graph main_heuristic "''G3''"] .



text \<open>
  C5. With non-negative weights the call returns, whatever cycles the graph has: the
  main loop and the reconstruction loop both end. No node is expanded twice: a pass
  that expands \<open>n\<close> puts it in the closed set, where it stays, and every later pass
  that pops \<open>n\<close> drops the entry.
\<close>

theorem returns_and_expands_once:
  assumes "nonneg_weights G"
  shows "(\<exists>r. a_star G H start goal = Some r) \<and>
         (\<forall>i j si sj n. i < j \<longrightarrow>
            iterate i goal (init_state G H start) = Some si \<longrightarrow>
            iterate j goal (init_state G H start) = Some sj \<longrightarrow>
            expands goal si n \<longrightarrow> \<not> expands goal sj n)"
  using a_star_returns [OF assms, of H start goal] expands_once [of _ _ goal "init_state G H start"]
  by blast

theorem returns_and_expands_once_witness:
  "nonneg_weights main_graph \<and>
   (\<exists>r. a_star main_graph main_heuristic ''S'' ''G2'' = Some r) \<and>
   (\<exists>s1. iterate 1 ''G2'' (init_state main_graph main_heuristic ''S'') = Some s1 \<and>
      expands ''G2'' (init_state main_graph main_heuristic ''S'') ''S'' \<and>
      \<not> expands ''G2'' s1 ''S'')"
proof -
  let ?s0 = "init_state main_graph main_heuristic ''S''"
  have nn: "nonneg_weights main_graph"
    by (simp add: nonneg_weights_def main_graph_def)
  have "\<exists>s1. iterate (Suc 0) ''G2'' ?s0 = Some s1"
    by (simp add: init_state_def loop_body_def heappop_def heappush_def Let_def
        graph_get_def main_graph_def relax_edge_def)
  then obtain s1 where s1: "iterate 1 ''G2'' ?s0 = Some s1" by auto
  have s0: "iterate 0 ''G2'' ?s0 = Some ?s0" by simp
  have ex: "expands ''G2'' ?s0 ''S''"
    by (simp add: expands_def init_state_def heappush_def)
  from returns_and_expands_once [OF nn, of main_heuristic "''S''" "''G2''"] s0 s1 ex
  have "(\<exists>r. a_star main_graph main_heuristic ''S'' ''G2'' = Some r) \<and> \<not> expands ''G2'' s1 ''S''"
    by (metis zero_less_one)
  with nn s1 ex show ?thesis by blast
qed



text \<open>
  C7, as stated: with non-negative weights the call raises nothing. It fails where a
  number is an int beyond the range of floats. With the weight \<^verbatim>\<open>10**309\<close> on
  the edge from S to A, the addition \<^verbatim>\<open>g_score[current] + cost\<close> raises
  \<^verbatim>\<open>OverflowError\<close>; with that number as the estimate of A, the addition
  \<^verbatim>\<open>tentative_g + h.get(neigh, 0)\<close> does.
\<close>

theorem huge_int_raises:
  "nonneg_weights huge_weight_graph \<and>
   a_star_conv huge_weight_graph Map.empty ''S'' ''A'' = Some (Inl OverflowError) \<and>
   nonneg_weights unit_graph \<and>
   a_star_conv unit_graph huge_heuristic ''S'' ''Z'' = Some (Inl OverflowError)"
proof -
  have "nonneg_weights huge_weight_graph"
    by (simp add: nonneg_weights_def huge_weight_graph_def huge_int_nonneg)
  moreover have "a_star_conv huge_weight_graph Map.empty ''S'' ''A'' = Some (Inl OverflowError)"
    by (simp add: a_star_conv_def init_state_def search_conv.simps loop_body_conv_def
        heappop_def heappush_def Let_def graph_get_def huge_weight_graph_def
        relax_edge_conv_def float_add_def huge_int_overflows)
  moreover have "nonneg_weights unit_graph"
    by (simp add: nonneg_weights_def unit_graph_def)
  moreover have "a_star_conv unit_graph huge_heuristic ''S'' ''Z'' = Some (Inl OverflowError)"
    by (simp add: a_star_conv_def init_state_def search_conv.simps loop_body_conv_def
        heappop_def heappush_def Let_def graph_get_def unit_graph_def huge_heuristic_def
        relax_edge_conv_def float_add_def huge_int_overflows one_in_range h_get_def)
  ultimately show ?thesis by blast
qed

text \<open>
  C7, amended: with non-negative weights, and every weight and every estimate a float
  or an int that converts to a float, the call raises nothing, whether or not its
  nodes are keys of the graph or of the heuristic table: both lookups
  \<^verbatim>\<open>g_score[current]\<close> find their key, the queue is never popped empty, no
  addition overflows in the conversion, and the call returns either a path with a
  finite cost or \<^verbatim>\<open>(None, inf)\<close>.
\<close>

theorem never_raises_in_float_range:
  assumes "nonneg_weights G" and "in_float_range G H"
  shows "\<exists>r. a_star_conv G H start goal = Some (Inr r) \<and>
           (r = (None, PosInf) \<or> (\<exists>p c. r = (Some p, Fin c)))"
  using a_star_returns [OF assms(1), of H start goal] a_star_conv_eq [OF assms(2), of start goal]
  by simp

theorem never_raises_in_float_range_witness:
  "nonneg_weights main_graph \<and> in_float_range main_graph Map.empty \<and>
   (\<exists>r. a_star_conv main_graph Map.empty ''S'' ''Z'' = Some (Inr r) \<and>
      (r = (None, PosInf) \<or> (\<exists>p c. r = (Some p, Fin c))))"
proof -
  have nn: "nonneg_weights main_graph"
    by (simp add: nonneg_weights_def main_graph_def)
  have fr: "in_float_range main_graph (Map.empty :: string \<rightharpoonup> real)"
    using float_limit_big by (simp add: in_float_range_def main_graph_def h_get_def)
  from never_raises_in_float_range [OF nn fr, of "''S''" "''Z''"] nn fr show ?thesis by blast
qed



text \<open>
  C9, at a failing input. On \<open>detour_graph\<close> with \<open>detour_heuristic\<close> the call returns the
  path S, A, B, G together with the cost 13, and the weights along that path sum to 12:
  the relaxation from A rewrites the predecessor and the cost of B, which is closed
  already, and the cost recorded for G was computed from the old cost of B.
\<close>

theorem returned_cost_is_not_path_cost:
  "a_star detour_graph detour_heuristic ''S'' ''G'' =
     Some (Inr (Some [''S'', ''A'', ''B'', ''G''], Fin 13)) \<and>
   path_cost detour_graph [''S'', ''A'', ''B'', ''G''] = Some 12"
  by code_simp

text \<open>
  C10. When the call returns, the graph and the heuristic table hold what they held
  before the call: the search only writes to the queue, the closed set and the two
  dicts it created.
\<close>

theorem inputs_unchanged:
  "a_star_run G H start goal = Some (r, s') \<Longrightarrow> graph s' = G \<and> h s' = H"
  by (auto simp: a_star_run_def init_state_def dest: search_frame)

theorem inputs_unchanged_witness:
  "\<exists>r s'. a_star_run main_graph main_heuristic ''S'' ''G2'' = Some (r, s') \<and>
     graph s' = main_graph \<and> h s' = main_heuristic"
proof -
  have "a_star main_graph main_heuristic ''S'' ''G2'' \<noteq> None"
    by code_simp
  then obtain r s' where run: "a_star_run main_graph main_heuristic ''S'' ''G2'' = Some (r, s')"
    by (auto simp: a_star_def)
  from inputs_unchanged [OF run] run show ?thesis by blast
qed

end
